theory Spec2Isabelle
  imports
    Main
    "HOL-Library.Sublist"
    "HOL-Library.Char_ord"
    "HOL-Library.List_Lexorder"
    "HOL-Library.Product_Lexorder"
begin

section \<open>Tag scheme (edit\_tag\_spellfix/tags.py)\<close>

text \<open>
  Tokens and tags are Python strings.  The four tag constants of the module are kept
  under their own names.
\<close>

type_synonym token = string
type_synonym tag = string

definition KEEP :: tag where
  "KEEP = ''KEEP''"

definition DELETE :: tag where
  "DELETE = ''DELETE''"

definition INSERT :: string where
  "INSERT = ''INSERT_''"

definition REPLACE :: string where
  "REPLACE = ''REPLACE_''"

text \<open>\<^verbatim>\<open>tag.startswith(REPLACE)\<close> and \<^verbatim>\<open>tag.startswith(INSERT)\<close>.\<close>

definition is_insert :: "tag \<Rightarrow> bool" where
  "is_insert tg = prefix INSERT tg"

definition is_replace :: "tag \<Rightarrow> bool" where
  "is_replace tg = prefix REPLACE tg"

text \<open>
  \<^verbatim>\<open>tag.split("_", 1)[1] if "_" in tag else ""\<close>: everything after the first
  underscore, or the empty string when the tag has none.
\<close>

definition strip_prefix :: "tag \<Rightarrow> string" where
  "strip_prefix tg =
     (if CHR ''_'' \<in> set tg then tl (dropWhile (\<lambda>c. c \<noteq> CHR ''_'') tg) else [])"

text \<open>\<^verbatim>\<open>sep.join(parts)\<close> of Python.\<close>

fun join :: "string \<Rightarrow> string list \<Rightarrow> string" where
  "join sep [] = []"
| "join sep [x] = x"
| "join sep (x # y # ys) = x @ sep @ join sep (y # ys)"

section \<open>Reconstruction (predict.py, model\_loader.py)\<close>

text \<open>
  The loop of \<^verbatim>\<open>apply_tags\<close> runs over \<^verbatim>\<open>zip(tokens, tags)\<close> and appends to
  \<^verbatim>\<open>out\<close>; the four branches are in the order of the source.
\<close>

fun apply_tags_loop :: "(token \<times> tag) list \<Rightarrow> string list \<Rightarrow> string list" where
  "apply_tags_loop [] out = out"
| "apply_tags_loop ((tok, tg) # rest) out =
     (if tg = KEEP then apply_tags_loop rest (out @ [tok])
      else if tg = DELETE then apply_tags_loop rest out
      else if is_replace tg then apply_tags_loop rest (out @ [strip_prefix tg])
      else apply_tags_loop rest (out @ [tok]))"

definition apply_tags :: "token list \<Rightarrow> tag list \<Rightarrow> string" where
  "apply_tags toks tgs = join '' '' (apply_tags_loop (zip toks tgs) [])"

text \<open>\<^verbatim>\<open>model_loader._apply_tags\<close>: the same loop, written out a second time there.\<close>

fun model_loader_apply_tags_loop :: "(token \<times> tag) list \<Rightarrow> string list \<Rightarrow> string list" where
  "model_loader_apply_tags_loop [] out = out"
| "model_loader_apply_tags_loop ((tok, tg) # rest) out =
     (if tg = KEEP then model_loader_apply_tags_loop rest (out @ [tok])
      else if tg = DELETE then model_loader_apply_tags_loop rest out
      else if is_replace tg then model_loader_apply_tags_loop rest (out @ [strip_prefix tg])
      else model_loader_apply_tags_loop rest (out @ [tok]))"

definition model_loader_apply_tags :: "token list \<Rightarrow> tag list \<Rightarrow> string" where
  "model_loader_apply_tags toks tgs =
     join '' '' (model_loader_apply_tags_loop (zip toks tgs) [])"

text \<open>
  The reconstruction rule as the specification words it: one piece list per
  (token, tag) pair, the pieces joined with single spaces.  A tag of the form
  \<^verbatim>\<open>REPLACE_<word>\<close> is one whose first eight characters are \<^verbatim>\<open>REPLACE_\<close>;
  its payload is the rest.
\<close>

definition spec_piece :: "token \<Rightarrow> tag \<Rightarrow> string list" where
  "spec_piece tok tg =
     (if tg = ''KEEP'' then [tok]
      else if tg = ''DELETE'' then []
      else if take 8 tg = ''REPLACE_'' then [drop 8 tg]
      else [tok])"

definition reconstruct_spec :: "token list \<Rightarrow> tag list \<Rightarrow> string" where
  "reconstruct_spec toks tgs = join '' '' (concat (map2 spec_piece toks tgs))"

section \<open>Reconstruction: what each tag does\<close>

lemma is_replace_iff: "is_replace tg \<longleftrightarrow> take 8 tg = ''REPLACE_''"
proof
  assume "is_replace tg"
  then obtain w where "tg = ''REPLACE_'' @ w"
    by (auto simp: is_replace_def REPLACE_def prefix_def)
  then show "take 8 tg = ''REPLACE_''" by simp
next
  assume h: "take 8 tg = ''REPLACE_''"
  have "tg = take 8 tg @ drop 8 tg" by simp
  with h have "tg = ''REPLACE_'' @ drop 8 tg" by simp
  then show "is_replace tg"
    unfolding is_replace_def REPLACE_def prefix_def by blast
qed

lemma strip_prefix_REPLACE: "strip_prefix (''REPLACE_'' @ w) = w"
  by (simp add: strip_prefix_def)

lemma strip_prefix_is_replace: "is_replace tg \<Longrightarrow> strip_prefix tg = drop 8 tg"
proof -
  assume "is_replace tg"
  then obtain w where w: "tg = ''REPLACE_'' @ w"
    by (auto simp: is_replace_def REPLACE_def prefix_def)
  show ?thesis unfolding w by (simp add: strip_prefix_def)
qed

lemma apply_tags_loop_pieces:
  "apply_tags_loop ps out = out @ concat (map (\<lambda>(tok, tg). spec_piece tok tg) ps)"
proof (induction ps arbitrary: out)
  case Nil
  show ?case by simp
next
  case (Cons p ps)
  obtain tok tg where p: "p = (tok, tg)" by (cases p)
  show ?case
    unfolding p
    by (simp add: Cons.IH spec_piece_def KEEP_def DELETE_def is_replace_iff
        strip_prefix_is_replace)
qed

lemma model_loader_loop_same:
  "model_loader_apply_tags_loop ps out = apply_tags_loop ps out"
  by (induction ps out rule: apply_tags_loop.induct) simp_all

lemma apply_tags_zip: "apply_tags toks tgs = reconstruct_spec toks tgs"
  by (simp add: apply_tags_def reconstruct_spec_def apply_tags_loop_pieces)

lemma model_loader_apply_tags_zip: "model_loader_apply_tags toks tgs = reconstruct_spec toks tgs"
  by (simp add: model_loader_apply_tags_def reconstruct_spec_def model_loader_loop_same
      apply_tags_loop_pieces)

lemma reconstruct_spec_take:
  "reconstruct_spec (take (min (length toks) (length tgs)) toks)
     (take (min (length toks) (length tgs)) tgs) = reconstruct_spec toks tgs"
proof -
  have "zip (take (min (length toks) (length tgs)) toks)
          (take (min (length toks) (length tgs)) tgs) = zip toks tgs"
    by (simp add: take_zip [symmetric])
  then show ?thesis by (simp add: reconstruct_spec_def)
qed

text \<open>
  Claim C5.  For a token sequence and a tag sequence of the same length, both copies of
  the reconstruction loop (\<^verbatim>\<open>predict.apply_tags\<close> and
  \<^verbatim>\<open>model_loader._apply_tags\<close>) compute the specified reconstruction: the token
  for \<^verbatim>\<open>KEEP\<close>, nothing for \<^verbatim>\<open>DELETE\<close>, the payload after the prefix for
  \<^verbatim>\<open>REPLACE_<word>\<close>, the original token for every other tag, the pieces joined
  with single spaces.  The loop has no raising operation (the only indexing,
  \<^verbatim>\<open>split("_", 1)[1]\<close>, is guarded by \<^verbatim>\<open>"_" in tag\<close>), so the model is a total
  function returning a string.
\<close>

theorem apply_tags_reconstructs:
  assumes "length toks = length tgs"
  shows "apply_tags toks tgs = reconstruct_spec toks tgs
       \<and> model_loader_apply_tags toks tgs = reconstruct_spec toks tgs"
  by (simp add: apply_tags_zip model_loader_apply_tags_zip)

theorem apply_tags_reconstructs_witness:
  "length [''a'', ''b'', ''c'', ''d''] = length [''KEEP'', ''DELETE'', ''REPLACE_x_y'', ''INSERT_z'']
   \<and> apply_tags [''a'', ''b'', ''c'', ''d''] [''KEEP'', ''DELETE'', ''REPLACE_x_y'', ''INSERT_z'']
       = ''a x_y d''
   \<and> model_loader_apply_tags [''a'', ''b'', ''c'', ''d'']
         [''KEEP'', ''DELETE'', ''REPLACE_x_y'', ''INSERT_z''] = ''a x_y d''"
  using apply_tags_reconstructs
    [of "[''a'', ''b'', ''c'', ''d'']" "[''KEEP'', ''DELETE'', ''REPLACE_x_y'', ''INSERT_z'']"]
  by (simp add: reconstruct_spec_def spec_piece_def)

text \<open>
  Claim C10.  The length precondition is not enforced: \<^verbatim>\<open>zip\<close> stops at the shorter
  sequence, so for sequences of unequal lengths only the first
  \<open>min (length toks) (length tgs)\<close> pairs are processed, and with fewer tags than
  tokens the trailing tokens are missing from the output.  No branch of the loop raises.
\<close>

theorem apply_tags_truncates:
  assumes "length toks \<noteq> length tgs"
  shows "apply_tags toks tgs =
           reconstruct_spec (take (min (length toks) (length tgs)) toks)
             (take (min (length toks) (length tgs)) tgs)
       \<and> model_loader_apply_tags toks tgs =
           reconstruct_spec (take (min (length toks) (length tgs)) toks)
             (take (min (length toks) (length tgs)) tgs)
       \<and> (length tgs < length toks \<longrightarrow>
            apply_tags toks tgs = apply_tags (take (length tgs) toks) tgs)"
proof -
  have "length tgs < length toks \<Longrightarrow>
      reconstruct_spec (take (length tgs) toks) tgs = reconstruct_spec toks tgs"
    using reconstruct_spec_take [of toks tgs] by (simp add: min_def)
  then show ?thesis
    by (simp add: apply_tags_zip model_loader_apply_tags_zip reconstruct_spec_take)
qed

theorem apply_tags_truncates_witness:
  "length [''a'', ''b'', ''c''] \<noteq> length [''KEEP'']
   \<and> apply_tags [''a'', ''b'', ''c''] [''KEEP''] = ''a''
   \<and> model_loader_apply_tags [''a'', ''b'', ''c''] [''KEEP''] = ''a''
   \<and> apply_tags (take (length [''KEEP'']) [''a'', ''b'', ''c'']) [''KEEP''] = ''a''"
  using apply_tags_truncates [of "[''a'', ''b'', ''c'']" "[''KEEP'']"]
  by (simp add: apply_tags_zip reconstruct_spec_def spec_piece_def)

section \<open>The sequence matcher (Python's difflib.SequenceMatcher)\<close>

text \<open>
  \<^verbatim>\<open>diff_to_tags\<close> calls \<^verbatim>\<open>difflib.SequenceMatcher(None, orig_tokens, cor_tokens)\<close>
  and walks \<^verbatim>\<open>get_opcodes()\<close>.  The matcher is the standard library's; the definitions
  below follow its source (\<^verbatim>\<open>Lib/difflib.py\<close>) method by method, for the call made
  here: no junk predicate (\<^verbatim>\<open>isjunk=None\<close>, so \<^verbatim>\<open>bjunk\<close> is empty) and
  \<^verbatim>\<open>autojunk=True\<close>.  Indices are natural numbers; where the source subtracts, the
  model writes the subtraction so that it cannot truncate (\<open>i + 1 - k\<close> for
  \<^verbatim>\<open>i-k+1\<close>).  The four opcode strings are a datatype.
\<close>

datatype optag = Equal | Delete | Insert | Replace

type_synonym match = "nat \<times> nat \<times> nat"
type_synonym opcode = "optag \<times> nat \<times> nat \<times> nat \<times> nat"

text \<open>
  \<^verbatim>\<open>__chain_b\<close>: \<^verbatim>\<open>b2j\<close> maps each element of \<open>b\<close> to the ascending list of its
  indices; when \<open>b\<close> has at least 200 elements, every element with more than
  \<open>n div 100 + 1\<close> occurrences is "popular" and its entry is deleted.
\<close>

fun chain_b_index :: "nat \<Rightarrow> 'a list \<Rightarrow> ('a \<rightharpoonup> nat list) \<Rightarrow> ('a \<rightharpoonup> nat list)" where
  "chain_b_index i [] b2j = b2j"
| "chain_b_index i (elt # rest) b2j =
     chain_b_index (Suc i) rest
       (b2j(elt \<mapsto> (case b2j elt of None \<Rightarrow> [] | Some indices \<Rightarrow> indices) @ [i]))"

definition chain_b :: "'a list \<Rightarrow> ('a \<rightharpoonup> nat list)" where
  "chain_b b =
     (let b2j = chain_b_index 0 b Map.empty; n = length b in
      if n \<ge> 200 then
        (let ntest = n div 100 + 1 in
         (\<lambda>elt. case b2j elt of
                  None \<Rightarrow> None
                | Some idxs \<Rightarrow> if length idxs > ntest then None else Some idxs))
      else b2j)"

text \<open>
  \<^verbatim>\<open>find_longest_match\<close>.  \<^verbatim>\<open>j2lenget(j-1, 0)\<close>: for \<open>j = 0\<close> the key \<open>-1\<close> is
  never present.  The inner loop runs over the indices of \<^verbatim>\<open>a[i]\<close> in \<open>b\<close>
  (\<^verbatim>\<open>continue\<close> below \<open>blo\<close>, \<^verbatim>\<open>break\<close> from \<open>bhi\<close> on), the outer loop over
  \<^verbatim>\<open>range(alo, ahi)\<close>; the four \<^verbatim>\<open>while\<close> loops that follow extend the best block
  downwards and upwards, first over non-junk, then over junk elements.
\<close>

definition j2lenget_prev :: "(nat \<rightharpoonup> nat) \<Rightarrow> nat \<Rightarrow> nat" where
  "j2lenget_prev j2len j = (if j = 0 then 0 else case j2len (j - 1) of None \<Rightarrow> 0 | Some v \<Rightarrow> v)"

fun flm_inner ::
  "(nat \<rightharpoonup> nat) \<Rightarrow> nat \<Rightarrow> nat \<Rightarrow> nat \<Rightarrow> nat list \<Rightarrow>
   (nat \<rightharpoonup> nat) \<times> match \<Rightarrow> (nat \<rightharpoonup> nat) \<times> match" where
  "flm_inner j2len i blo bhi [] st = st"
| "flm_inner j2len i blo bhi (j # js) (newj2len, besti, bestj, bestsize) =
     (if j < blo then flm_inner j2len i blo bhi js (newj2len, besti, bestj, bestsize)
      else if j \<ge> bhi then (newj2len, besti, bestj, bestsize)
      else
        (let k = j2lenget_prev j2len j + 1 in
         if k > bestsize
         then flm_inner j2len i blo bhi js (newj2len(j \<mapsto> k), i + 1 - k, j + 1 - k, k)
         else flm_inner j2len i blo bhi js (newj2len(j \<mapsto> k), besti, bestj, bestsize)))"

fun flm_outer ::
  "'a list \<Rightarrow> ('a \<rightharpoonup> nat list) \<Rightarrow> nat \<Rightarrow> nat \<Rightarrow> nat list \<Rightarrow>
   (nat \<rightharpoonup> nat) \<times> match \<Rightarrow> (nat \<rightharpoonup> nat) \<times> match" where
  "flm_outer a b2j blo bhi [] st = st"
| "flm_outer a b2j blo bhi (i # is) (j2len, best) =
     flm_outer a b2j blo bhi is
       (flm_inner j2len i blo bhi (case b2j (a ! i) of None \<Rightarrow> [] | Some js \<Rightarrow> js)
          (Map.empty, best))"

function extend_lo ::
  "('a \<Rightarrow> bool) \<Rightarrow> 'a list \<Rightarrow> 'a list \<Rightarrow> nat \<Rightarrow> nat \<Rightarrow> match \<Rightarrow> match" where
  "extend_lo want a b alo blo (besti, bestj, bestsize) =
     (if besti > alo \<and> bestj > blo \<and> want (b ! (bestj - 1)) \<and> a ! (besti - 1) = b ! (bestj - 1)
      then extend_lo want a b alo blo (besti - 1, bestj - 1, bestsize + 1)
      else (besti, bestj, bestsize))"
  by pat_completeness auto
termination
  by (relation "measure (\<lambda>(want, a, b, alo, blo, besti, bestj, bestsize). besti)") auto

function extend_hi ::
  "('a \<Rightarrow> bool) \<Rightarrow> 'a list \<Rightarrow> 'a list \<Rightarrow> nat \<Rightarrow> nat \<Rightarrow> match \<Rightarrow> match" where
  "extend_hi want a b ahi bhi (besti, bestj, bestsize) =
     (if besti + bestsize < ahi \<and> bestj + bestsize < bhi \<and> want (b ! (bestj + bestsize))
         \<and> a ! (besti + bestsize) = b ! (bestj + bestsize)
      then extend_hi want a b ahi bhi (besti, bestj, bestsize + 1)
      else (besti, bestj, bestsize))"
  by pat_completeness auto
termination
  by (relation "measure (\<lambda>(want, a, b, ahi, bhi, besti, bestj, bestsize). ahi - (besti + bestsize))") auto

declare extend_lo.simps [simp del] extend_hi.simps [simp del]

definition find_longest_match ::
  "'a list \<Rightarrow> 'a list \<Rightarrow> ('a \<rightharpoonup> nat list) \<Rightarrow> 'a set \<Rightarrow> nat \<Rightarrow> nat \<Rightarrow> nat \<Rightarrow> nat \<Rightarrow> match" where
  "find_longest_match a b b2j bjunk alo ahi blo bhi =
     (let best0 = snd (flm_outer a b2j blo bhi [alo..<ahi] (Map.empty, alo, blo, 0));
          best1 = extend_lo (\<lambda>x. x \<notin> bjunk) a b alo blo best0;
          best2 = extend_hi (\<lambda>x. x \<notin> bjunk) a b ahi bhi best1;
          best3 = extend_lo (\<lambda>x. x \<in> bjunk) a b alo blo best2;
          best4 = extend_hi (\<lambda>x. x \<in> bjunk) a b ahi bhi best3
      in best4)"

text \<open>The collapsing loop of \<^verbatim>\<open>get_matching_blocks\<close> and the loop of \<^verbatim>\<open>get_opcodes\<close>.\<close>

fun collapse :: "match list \<Rightarrow> match \<Rightarrow> match list \<Rightarrow> match list" where
  "collapse [] (i1, j1, k1) non_adjacent =
     (if k1 \<noteq> 0 then non_adjacent @ [(i1, j1, k1)] else non_adjacent)"
| "collapse ((i2, j2, k2) # rest) (i1, j1, k1) non_adjacent =
     (if i1 + k1 = i2 \<and> j1 + k1 = j2 then collapse rest (i1, j1, k1 + k2) non_adjacent
      else collapse rest (i2, j2, k2)
             (if k1 \<noteq> 0 then non_adjacent @ [(i1, j1, k1)] else non_adjacent))"

fun get_opcodes_loop :: "match list \<Rightarrow> nat \<Rightarrow> nat \<Rightarrow> opcode list \<Rightarrow> opcode list" where
  "get_opcodes_loop [] i j answer = answer"
| "get_opcodes_loop ((ai, bj, sz) # rest) i j answer =
     (let tg = (if i < ai \<and> j < bj then Some Replace
                else if i < ai then Some Delete
                else if j < bj then Some Insert
                else None);
          answer1 = (case tg of None \<Rightarrow> answer | Some t \<Rightarrow> answer @ [(t, i, ai, j, bj)]);
          answer2 = (if sz \<noteq> 0 then answer1 @ [(Equal, ai, ai + sz, bj, bj + sz)]
                     else answer1)
      in get_opcodes_loop rest (ai + sz) (bj + sz) answer2)"


subsection \<open>The longest match lies inside its region\<close>

definition row_ok :: "nat \<Rightarrow> nat \<Rightarrow> nat \<Rightarrow> (nat \<rightharpoonup> nat) \<Rightarrow> bool" where
  "row_ok d blo bhi m \<longleftrightarrow> (\<forall>j v. m j = Some v \<longrightarrow> 1 \<le> v \<and> v \<le> d \<and> v \<le> j + 1 - blo \<and> j < bhi)"

fun best_ok :: "nat \<Rightarrow> nat \<Rightarrow> nat \<Rightarrow> nat \<Rightarrow> match \<Rightarrow> bool" where
  "best_ok alo ahi blo bhi (bi, bj, bs) \<longleftrightarrow>
     alo \<le> bi \<and> blo \<le> bj \<and> (bs = 0 \<and> bi = alo \<and> bj = blo \<or> bi + bs \<le> ahi \<and> bj + bs \<le> bhi)"

lemma row_ok_empty: "row_ok d blo bhi Map.empty"
  by (simp add: row_ok_def)

lemma row_ok_prev:
  assumes "row_ok d blo bhi m" "blo \<le> j"
  shows "j2lenget_prev m j \<le> d" and "j2lenget_prev m j \<le> j - blo"
proof -
  show "j2lenget_prev m j \<le> d"
    using assms by (auto simp: row_ok_def j2lenget_prev_def split: option.splits)
  show "j2lenget_prev m j \<le> j - blo"
  proof (cases "j = 0 \<or> m (j - 1) = None")
    case True
    then show ?thesis by (auto simp: j2lenget_prev_def)
  next
    case False
    then obtain v where v: "m (j - 1) = Some v" and j: "j \<noteq> 0" by auto
    from assms(1) v have "v \<le> (j - 1) + 1 - blo" by (auto simp: row_ok_def)
    with j v show ?thesis by (simp add: j2lenget_prev_def)
  qed
qed

lemma flm_inner_ok:
  assumes "row_ok (i - alo) blo bhi j2len" "alo \<le> i" "i < ahi"
    and "row_ok (i + 1 - alo) blo bhi new" "best_ok alo ahi blo bhi best"
  shows "row_ok (i + 1 - alo) blo bhi (fst (flm_inner j2len i blo bhi js (new, best)))
       \<and> best_ok alo ahi blo bhi (snd (flm_inner j2len i blo bhi js (new, best)))"
  using assms(4,5)
proof (induction js arbitrary: new best)
  case Nil
  then show ?case by simp
next
  case (Cons j js)
  obtain bi bj bs where best: "best = (bi, bj, bs)" by (cases best)
  show ?case
  proof (cases "j < blo")
    case True
    then show ?thesis using Cons by (simp add: best)
  next
    case lo: False
    show ?thesis
    proof (cases "j \<ge> bhi")
      case True
      then show ?thesis using lo Cons.prems by (simp add: best)
    next
      case hi: False
      define k where "k = j2lenget_prev j2len j + 1"
      have k1: "1 \<le> k" by (simp add: k_def)
      have k2: "k \<le> i + 1 - alo"
        using row_ok_prev(1) [OF assms(1), of j] lo assms(2) by (simp add: k_def)
      have k3: "k \<le> j + 1 - blo"
        using row_ok_prev(2) [OF assms(1), of j] lo by (simp add: k_def)
      have new': "row_ok (i + 1 - alo) blo bhi (new(j \<mapsto> k))"
        using Cons.prems(1) k1 k2 k3 hi by (auto simp: row_ok_def)
      have bk: "best_ok alo ahi blo bhi (i + 1 - k, j + 1 - k, k)"
        using k1 k2 k3 hi lo assms(2,3) by auto
      have step: "flm_inner j2len i blo bhi (j # js) (new, best) =
          flm_inner j2len i blo bhi js
            (new(j \<mapsto> k), if k > bs then (i + 1 - k, j + 1 - k, k) else best)"
        using lo hi unfolding best k_def by (simp add: Let_def)
      show ?thesis
      proof (cases "k > bs")
        case True
        show ?thesis
          unfolding step if_P [OF True] by (rule Cons.IH [OF new' bk])
      next
        case False
        show ?thesis
          unfolding step if_not_P [OF False] by (rule Cons.IH [OF new' Cons.prems(2)])
      qed
    qed
  qed
qed

lemma flm_outer_ok:
  assumes "row_ok (i - alo) blo bhi j2len" "alo \<le> i" "best_ok alo ahi blo bhi best"
  shows "best_ok alo ahi blo bhi (snd (flm_outer a b2j blo bhi [i..<ahi] (j2len, best)))"
  using assms
proof (induction "ahi - i" arbitrary: i j2len best)
  case 0
  then show ?case by simp
next
  case (Suc n)
  then have lt: "i < ahi" by simp
  let ?st = "flm_inner j2len i blo bhi (case b2j (a ! i) of None \<Rightarrow> [] | Some js \<Rightarrow> js)
      (Map.empty, best)"
  have ok: "row_ok (i + 1 - alo) blo bhi (fst ?st) \<and> best_ok alo ahi blo bhi (snd ?st)"
    by (rule flm_inner_ok [OF Suc.prems(1,2) lt row_ok_empty Suc.prems(3)])
  have "best_ok alo ahi blo bhi
      (snd (flm_outer a b2j blo bhi [Suc i..<ahi] (fst ?st, snd ?st)))"
    using Suc.hyps(1) [of "Suc i" "fst ?st" "snd ?st"] Suc.hyps(2) ok Suc.prems(2)
    by (simp add: Suc_diff_le)
  then show ?case using lt by (simp add: upt_conv_Cons)
qed

lemma extend_lo_ok:
  "best_ok alo ahi blo bhi best \<Longrightarrow> best_ok alo ahi blo bhi (extend_lo want a b alo blo best)"
proof (induction want a b alo blo best rule: extend_lo.induct)
  case (1 want a b alo blo besti bestj bestsize)
  show ?case
  proof (cases "besti > alo \<and> bestj > blo \<and> want (b ! (bestj - 1)) \<and> a ! (besti - 1) = b ! (bestj - 1)")
    case True
    have "best_ok alo ahi blo bhi (besti - 1, bestj - 1, bestsize + 1)"
      using True "1.prems" by auto
    from "1.IH" [OF True this] True show ?thesis
      by (subst extend_lo.simps) simp
  next
    case False
    then show ?thesis using "1.prems"
      by (subst extend_lo.simps) auto
  qed
qed

lemma extend_hi_ok:
  "best_ok alo ahi blo bhi best \<Longrightarrow> best_ok alo ahi blo bhi (extend_hi want a b ahi bhi best)"
proof (induction want a b ahi bhi best rule: extend_hi.induct)
  case (1 want a b ahi bhi besti bestj bestsize)
  show ?case
  proof (cases "besti + bestsize < ahi \<and> bestj + bestsize < bhi \<and> want (b ! (bestj + bestsize))
         \<and> a ! (besti + bestsize) = b ! (bestj + bestsize)")
    case True
    have "best_ok alo ahi blo bhi (besti, bestj, bestsize + 1)"
      using True "1.prems" by auto
    from "1.IH" [OF True this] True show ?thesis
      by (subst extend_hi.simps) simp
  next
    case False
    then show ?thesis using "1.prems"
      by (subst extend_hi.simps) auto
  qed
qed

lemma find_longest_match_ok:
  "best_ok alo ahi blo bhi (find_longest_match a b b2j bjunk alo ahi blo bhi)"
proof -
  have "best_ok alo ahi blo bhi (alo, blo, 0)" by simp
  then have "best_ok alo ahi blo bhi
      (snd (flm_outer a b2j blo bhi [alo..<ahi] (Map.empty, alo, blo, 0)))"
    by (intro flm_outer_ok) (simp_all add: row_ok_empty)
  then show ?thesis
    unfolding find_longest_match_def Let_def
    by (intro extend_hi_ok extend_lo_ok)
qed

lemma find_longest_match_bounds:
  assumes "find_longest_match a b b2j bjunk alo ahi blo bhi = (i, j, k)" "k \<noteq> 0"
  shows "alo \<le> i" "i + k \<le> ahi" "blo \<le> j" "j + k \<le> bhi"
  using find_longest_match_ok [of alo ahi blo bhi a b b2j bjunk] assms by auto

text \<open>
  \<^verbatim>\<open>get_matching_blocks\<close>: the work list \<^verbatim>\<open>queue\<close> is a stack
  (\<^verbatim>\<open>queue.pop()\<close> takes the region appended last; here the head of the list), the
  blocks found are sorted as tuples, adjacent blocks are collapsed and the sentinel
  \<open>(la, lb, 0)\<close> is appended.  The loop terminates because a non-empty match lies
  inside its region, so the regions left and right of it are smaller.
\<close>

type_synonym region = "nat \<times> nat \<times> nat \<times> nat"

function gmb_loop ::
  "'a list \<Rightarrow> 'a list \<Rightarrow> ('a \<rightharpoonup> nat list) \<Rightarrow> 'a set \<Rightarrow> region list \<Rightarrow> match list \<Rightarrow> match list" where
  "gmb_loop a b b2j bjunk [] matching_blocks = matching_blocks"
| "gmb_loop a b b2j bjunk ((alo, ahi, blo, bhi) # queue) matching_blocks =
     (case find_longest_match a b b2j bjunk alo ahi blo bhi of
        (i, j, k) \<Rightarrow>
          if k \<noteq> 0 then
            gmb_loop a b b2j bjunk
              ((if i + k < ahi \<and> j + k < bhi then [(i + k, ahi, j + k, bhi)] else [])
               @ (if alo < i \<and> blo < j then [(alo, i, blo, j)] else [])
               @ queue)
              (matching_blocks @ [(i, j, k)])
          else gmb_loop a b b2j bjunk queue matching_blocks)"
  by pat_completeness auto
termination gmb_loop
proof (relation "measure (\<lambda>(a, b, b2j, bjunk, queue, mb).
          sum_list (map (\<lambda>(alo, ahi, blo, bhi). 2 * (ahi - alo) + 1) queue))", goal_cases)
  case 1
  show ?case by simp
next
  case (2 a b b2j bjunk alo ahi blo bhi queue mb i y j k)
  then have f: "find_longest_match a b b2j bjunk alo ahi blo bhi = (i, j, k)" by simp
  from find_longest_match_bounds [OF f \<open>k \<noteq> 0\<close>] \<open>k \<noteq> 0\<close>
  show ?case by auto
next
  case 3
  then show ?case by simp
qed

declare gmb_loop.simps [simp del]

definition get_matching_blocks :: "'a list \<Rightarrow> 'a list \<Rightarrow> match list" where
  "get_matching_blocks a b =
     (let la = length a; lb = length b;
          matching_blocks = gmb_loop a b (chain_b b) {} [(0, la, 0, lb)] [];
          non_adjacent = collapse (sort matching_blocks) (0, 0, 0) []
      in non_adjacent @ [(la, lb, 0)])"

definition get_opcodes :: "'a list \<Rightarrow> 'a list \<Rightarrow> opcode list" where
  "get_opcodes a b = get_opcodes_loop (get_matching_blocks a b) 0 0 []"

section \<open>The alignment engine (diff\_to\_tags)\<close>

text \<open>
  Exceptions the modelled code can raise, and the dataclass \<^verbatim>\<open>TaggedExample\<close>.
\<close>

datatype py_error = IndexError | AssertionError | KeyError

record TaggedExample =
  tokens :: "token list"
  tags :: "tag list"
  gap_tags :: "string list"

text \<open>
  \<^verbatim>\<open>xs[i1:i2]\<close> for indices that are not negative: a slice never raises, it is
  clipped to the list.
\<close>

definition py_slice :: "'a list \<Rightarrow> nat \<Rightarrow> nat \<Rightarrow> 'a list" where
  "py_slice xs i1 i2 = drop i1 (take i2 xs)"

text \<open>\<^verbatim>\<open>" ".join(f"{INSERT}{t}" for t in span)\<close>.\<close>

definition insert_gap :: "token list \<Rightarrow> string" where
  "insert_gap span = join '' '' (map (\<lambda>t. INSERT @ t) span)"

text \<open>
  The look-ahead of the delete branch: there is a next opcode, it is an insert, one
  token is deleted and one is inserted.  The first argument is \<^verbatim>\<open>opcodes[i]\<close>, the
  second the opcodes after it.
\<close>

fun fusable :: "opcode \<Rightarrow> opcode list \<Rightarrow> bool" where
  "fusable (op, i1, i2, j1, j2) [] = False"
| "fusable (op, i1, i2, j1, j2) ((nop, ni1, ni2, nj1, nj2) # rest) =
     (nop = Insert \<and> i2 - i1 = 1 \<and> nj2 - nj1 = 1)"

text \<open>
  The \<^verbatim>\<open>while i < len(opcodes)\<close> loop, as a recursion over the opcodes from index
  \<open>i\<close> on; the state is \<^verbatim>\<open>(tags, gaps)\<close>.  The fused branch skips the insert
  opcode (\<^verbatim>\<open>i += 1\<close> twice).  \<^verbatim>\<open>[KEEP] * (i2 - i1)\<close> is empty for a negative
  count, as \<open>replicate\<close> is for the truncated difference.  A list index out of range
  (\<^verbatim>\<open>cor_tokens[...]\<close>, \<^verbatim>\<open>gaps[gap_idx] = ...\<close>) raises \<^verbatim>\<open>IndexError\<close>.
\<close>

function diff_loop ::
  "token list \<Rightarrow> token list \<Rightarrow> opcode list \<Rightarrow> tag list \<times> string list \<Rightarrow>
   py_error + (tag list \<times> string list)" where
  "diff_loop orig cor [] st = Inr st"
| "diff_loop orig cor ((op, i1, i2, j1, j2) # rest) (tgs, gaps) =
     (case op of
        Equal \<Rightarrow> diff_loop orig cor rest (tgs @ replicate (i2 - i1) KEEP, gaps)
      | Delete \<Rightarrow>
          if fusable (op, i1, i2, j1, j2) rest then
            (let nj1 = fst (snd (snd (snd (hd rest)))) in
             if nj1 < length cor
             then diff_loop orig cor (tl rest) (tgs @ [REPLACE @ cor ! nj1], gaps)
             else Inl IndexError)
          else diff_loop orig cor rest (tgs @ replicate (i2 - i1) DELETE, gaps)
      | Replace \<Rightarrow>
          (let span_orig = py_slice orig i1 i2; span_cor = py_slice cor j1 j2 in
           if length span_orig = length span_cor
           then diff_loop orig cor rest (tgs @ map (\<lambda>new_tok. REPLACE @ new_tok) span_cor, gaps)
           else
             (let tgs' = tgs @ replicate (length span_orig) DELETE; gap_idx = length tgs' in
              if gap_idx < length gaps
              then diff_loop orig cor rest (tgs', gaps[gap_idx := insert_gap span_cor])
              else Inl IndexError))
      | Insert \<Rightarrow>
          (let gap_idx = length tgs in
           if gap_idx < length gaps
           then diff_loop orig cor rest
                  (tgs, gaps[gap_idx := insert_gap (py_slice cor j1 j2)])
           else Inl IndexError))"
  by pat_completeness auto
termination
  by (relation "measure (\<lambda>(orig, cor, opcodes, st). length opcodes)") auto

text \<open>
  \<^verbatim>\<open>diff_to_tags\<close>: the gaps start as \<open>len(orig_tokens) + 1\<close> copies of
  \<^verbatim>\<open>"KEEP_GAP"\<close>; the final \<^verbatim>\<open>assert\<close> raises \<^verbatim>\<open>AssertionError\<close>.
\<close>

definition diff_to_tags :: "token list \<Rightarrow> token list \<Rightarrow> py_error + TaggedExample" where
  "diff_to_tags orig_tokens cor_tokens =
     (let opcodes = get_opcodes orig_tokens cor_tokens in
      case diff_loop orig_tokens cor_tokens opcodes
             ([], replicate (length orig_tokens + 1) ''KEEP_GAP'') of
        Inl e \<Rightarrow> Inl e
      | Inr (tgs, gaps) \<Rightarrow>
          if length tgs = length orig_tokens
          then Inr \<lparr>tokens = orig_tokens, tags = tgs, gap_tags = gaps\<rparr>
          else Inl AssertionError)"

text \<open>
  The same function with the delete-plus-insert fusion branch removed: a delete opcode
  always emits \<^verbatim>\<open>DELETE\<close> tags.
\<close>

fun diff_loop_nofusion ::
  "token list \<Rightarrow> token list \<Rightarrow> opcode list \<Rightarrow> tag list \<times> string list \<Rightarrow>
   py_error + (tag list \<times> string list)" where
  "diff_loop_nofusion orig cor [] st = Inr st"
| "diff_loop_nofusion orig cor ((op, i1, i2, j1, j2) # rest) (tgs, gaps) =
     (case op of
        Equal \<Rightarrow> diff_loop_nofusion orig cor rest (tgs @ replicate (i2 - i1) KEEP, gaps)
      | Delete \<Rightarrow> diff_loop_nofusion orig cor rest (tgs @ replicate (i2 - i1) DELETE, gaps)
      | Replace \<Rightarrow>
          (let span_orig = py_slice orig i1 i2; span_cor = py_slice cor j1 j2 in
           if length span_orig = length span_cor
           then diff_loop_nofusion orig cor rest
                  (tgs @ map (\<lambda>new_tok. REPLACE @ new_tok) span_cor, gaps)
           else
             (let tgs' = tgs @ replicate (length span_orig) DELETE; gap_idx = length tgs' in
              if gap_idx < length gaps
              then diff_loop_nofusion orig cor rest (tgs', gaps[gap_idx := insert_gap span_cor])
              else Inl IndexError))
      | Insert \<Rightarrow>
          (let gap_idx = length tgs in
           if gap_idx < length gaps
           then diff_loop_nofusion orig cor rest
                  (tgs, gaps[gap_idx := insert_gap (py_slice cor j1 j2)])
           else Inl IndexError))"

definition diff_to_tags_nofusion :: "token list \<Rightarrow> token list \<Rightarrow> py_error + TaggedExample" where
  "diff_to_tags_nofusion orig_tokens cor_tokens =
     (let opcodes = get_opcodes orig_tokens cor_tokens in
      case diff_loop_nofusion orig_tokens cor_tokens opcodes
             ([], replicate (length orig_tokens + 1) ''KEEP_GAP'') of
        Inl e \<Rightarrow> Inl e
      | Inr (tgs, gaps) \<Rightarrow>
          if length tgs = length orig_tokens
          then Inr \<lparr>tokens = orig_tokens, tags = tgs, gap_tags = gaps\<rparr>
          else Inl AssertionError)"

section \<open>The fusion branch is never taken\<close>

text \<open>
  An opcode list in which no delete is immediately followed by an insert.
\<close>

fun no_delete_insert :: "opcode list \<Rightarrow> bool" where
  "no_delete_insert [] = True"
| "no_delete_insert [x] = True"
| "no_delete_insert (x # y # rest) =
     ((fst x \<noteq> Delete \<or> fst y \<noteq> Insert) \<and> no_delete_insert (y # rest))"

fun block_size :: "match \<Rightarrow> nat" where
  "block_size (i, j, k) = k"

lemma no_delete_insert_snoc:
  "no_delete_insert (xs @ [y]) \<longleftrightarrow>
     no_delete_insert xs \<and> (xs = [] \<or> fst (last xs) \<noteq> Delete \<or> fst y \<noteq> Insert)"
  by (induction xs rule: no_delete_insert.induct) auto

lemma collapse_sizes:
  assumes "\<forall>m \<in> set acc. block_size m \<noteq> 0"
  shows "\<forall>m \<in> set (collapse bs cur acc). block_size m \<noteq> 0"
  using assms
proof (induction bs cur acc rule: collapse.induct)
  case (1 i1 j1 k1 non_adjacent)
  then show ?case by auto
next
  case (2 i2 j2 k2 rest i1 j1 k1 non_adjacent)
  show ?case
  proof (cases "i1 + k1 = i2 \<and> j1 + k1 = j2")
    case True
    then show ?thesis using "2.IH"(1) "2.prems" by simp
  next
    case False
    have acc: "\<forall>m \<in> set (if k1 \<noteq> 0 then non_adjacent @ [(i1, j1, k1)] else non_adjacent).
            block_size m \<noteq> 0"
      using "2.prems" by auto
    show ?thesis
      unfolding collapse.simps if_not_P [OF False] by (rule "2.IH"(2) [OF False acc])
  qed
qed

lemma get_opcodes_loop_no_delete_insert:
  assumes "\<forall>m \<in> set (butlast blocks). block_size m \<noteq> 0"
    and "no_delete_insert answer"
    and "answer = [] \<or> fst (last answer) = Equal"
  shows "no_delete_insert (get_opcodes_loop blocks i j answer)"
  using assms
proof (induction blocks arbitrary: i j answer)
  case Nil
  then show ?case by simp
next
  case (Cons m blocks)
  obtain ai bj sz where m: "m = (ai, bj, sz)" by (cases m)
  define tg where "tg = (if i < ai \<and> j < bj then Some Replace
                else if i < ai then Some Delete
                else if j < bj then Some Insert
                else None)"
  define answer1 where
    "answer1 = (case tg of None \<Rightarrow> answer | Some t \<Rightarrow> answer @ [(t, i, ai, j, bj)])"
  define answer2 where
    "answer2 = (if sz \<noteq> 0 then answer1 @ [(Equal, ai, ai + sz, bj, bj + sz)] else answer1)"
  have step: "get_opcodes_loop (m # blocks) i j answer =
      get_opcodes_loop blocks (ai + sz) (bj + sz) answer2"
    by (simp add: m tg_def answer1_def answer2_def Let_def)
  have a1: "no_delete_insert answer1"
    using Cons.prems(2,3)
    by (cases tg) (auto simp: answer1_def no_delete_insert_snoc)
  show ?case
  proof (cases "sz = 0")
    case True
    have "blocks = []"
    proof (rule ccontr)
      assume "blocks \<noteq> []"
      then have "m \<in> set (butlast (m # blocks))" by simp
      with Cons.prems(1) True m show False by auto
    qed
    then show ?thesis unfolding step using a1 True by (simp add: answer2_def)
  next
    case False
    have a2: "no_delete_insert answer2"
      using a1 False by (simp add: answer2_def no_delete_insert_snoc)
    have l2: "answer2 = [] \<or> fst (last answer2) = Equal"
      using False by (simp add: answer2_def)
    have b: "\<forall>m \<in> set (butlast blocks). block_size m \<noteq> 0"
      using Cons.prems(1) by (cases blocks) auto
    show ?thesis unfolding step by (rule Cons.IH [OF b a2 l2])
  qed
qed

lemma get_opcodes_no_delete_insert: "no_delete_insert (get_opcodes a b)"
proof -
  have "\<forall>m \<in> set (collapse (sort (gmb_loop a b (chain_b b) {} [(0, length a, 0, length b)] []))
          (0, 0, 0) []). block_size m \<noteq> 0"
    by (rule collapse_sizes) simp
  then show ?thesis
    unfolding get_opcodes_def get_matching_blocks_def Let_def
    by (intro get_opcodes_loop_no_delete_insert) simp_all
qed

lemma diff_loop_nofusion_eq:
  "no_delete_insert opcodes \<Longrightarrow>
     diff_loop orig cor opcodes st = diff_loop_nofusion orig cor opcodes st"
proof (induction opcodes arbitrary: st)
  case Nil
  show ?case by simp
next
  case (Cons x opcodes)
  obtain op i1 i2 j1 j2 where x: "x = (op, i1, i2, j1, j2)" by (cases x)
  obtain tgs gaps where st: "st = (tgs, gaps)" by (cases st)
  have rest: "no_delete_insert opcodes"
    using Cons.prems by (cases opcodes) auto
  show ?case
  proof (cases op)
    case Delete
    have nf: "\<not> fusable (Delete, i1, i2, j1, j2) opcodes"
      using Cons.prems x Delete by (cases opcodes) auto
    show ?thesis
      unfolding x st Delete by (simp add: Cons.IH [OF rest] nf)
  qed (simp_all add: x st Cons.IH [OF rest] Let_def)
qed

text \<open>
  Claim C9.  \<^verbatim>\<open>get_opcodes\<close> emits at most one non-equal opcode between two matching
  blocks, and every matching block but the final sentinel has a positive size, so a
  delete opcode is followed by an equal opcode or by nothing, never by an insert.  The
  look-ahead of the delete branch therefore never succeeds, and \<^verbatim>\<open>diff_to_tags\<close>
  returns, for every pair of token lists, what its variant without the fusion branch
  returns.
\<close>

theorem fusion_branch_unreachable:
  "no_delete_insert (get_opcodes orig cor)
   \<and> diff_to_tags orig cor = diff_to_tags_nofusion orig cor"
  by (simp add: diff_to_tags_def diff_to_tags_nofusion_def Let_def
      get_opcodes_no_delete_insert diff_loop_nofusion_eq)

theorem fusion_branch_unreachable_witness:
  "diff_to_tags [''fuil'', ''stack''] [''full'', ''stack'']
     = diff_to_tags_nofusion [''fuil'', ''stack''] [''full'', ''stack'']"
  using fusion_branch_unreachable [of "[''fuil'', ''stack'']" "[''full'', ''stack'']"]
  by simp

section \<open>The demo sentence pair\<close>

text \<open>
  \<^verbatim>\<open>s.split()\<close> without arguments: the maximal runs of non-whitespace characters.
\<close>

definition is_space :: "char \<Rightarrow> bool" where
  "is_space c \<longleftrightarrow> c \<in> {CHR '' '', CHR 0x09, CHR 0x0A, CHR 0x0B, CHR 0x0C, CHR 0x0D}"

fun split_loop :: "string \<Rightarrow> string \<Rightarrow> string list \<Rightarrow> string list" where
  "split_loop [] word acc = (if word = [] then acc else acc @ [word])"
| "split_loop (c # cs) word acc =
     (if is_space c then split_loop cs [] (if word = [] then acc else acc @ [word])
      else split_loop cs (word @ [c]) acc)"

definition split :: "string \<Rightarrow> string list" where
  "split s = split_loop s [] []"

text \<open>The sentence pair of the module's demo (\<^verbatim>\<open>__main__\<close> of tags.py).\<close>

definition demo_orig :: "token list" where
  "demo_orig = split ''a fuil stack engineer huilding web apps''"

definition demo_cor :: "token list" where
  "demo_cor = split ''a full-stack engineer building web apps''"

lemma demo_orig_tokens:
  "demo_orig = [''a'', ''fuil'', ''stack'', ''engineer'', ''huilding'', ''web'', ''apps'']"
  by code_simp

lemma demo_cor_tokens:
  "demo_cor = [''a'', ''full-stack'', ''engineer'', ''building'', ''web'', ''apps'']"
  by code_simp

lemma demo_opcodes:
  "get_opcodes demo_orig demo_cor =
     [(Equal, 0, 1, 0, 1), (Replace, 1, 3, 1, 2), (Equal, 3, 4, 2, 3),
      (Replace, 4, 5, 3, 4), (Equal, 5, 7, 4, 6)]"
  by code_simp

lemma demo_result:
  "diff_to_tags demo_orig demo_cor =
     Inr \<lparr>tokens = [''a'', ''fuil'', ''stack'', ''engineer'', ''huilding'', ''web'', ''apps''],
          tags = [''KEEP'', ''DELETE'', ''DELETE'', ''KEEP'', ''REPLACE_building'', ''KEEP'',
                  ''KEEP''],
          gap_tags = [''KEEP_GAP'', ''KEEP_GAP'', ''KEEP_GAP'', ''INSERT_full-stack'',
                      ''KEEP_GAP'', ''KEEP_GAP'', ''KEEP_GAP'', ''KEEP_GAP'']\<rparr>"
  by code_simp

text \<open>
  Claim C2, as stated, fails on the code.  The two tokens \<^verbatim>\<open>fuil stack\<close> against the
  one token \<^verbatim>\<open>full-stack\<close> form a replace opcode of unequal lengths, which the code
  turns into two \<^verbatim>\<open>DELETE\<close> tags and a gap entry; index 1 holds \<^verbatim>\<open>DELETE\<close>, index 3
  holds \<^verbatim>\<open>KEEP\<close> (the token \<^verbatim>\<open>engineer\<close>), and reconstruction, which does not read
  the gap entries, loses \<^verbatim>\<open>full-stack\<close>.
\<close>

theorem demo_scenario_counterexample:
  "diff_to_tags demo_orig demo_cor =
     Inr \<lparr>tokens = demo_orig,
          tags = [''KEEP'', ''DELETE'', ''DELETE'', ''KEEP'', ''REPLACE_building'', ''KEEP'',
                  ''KEEP''],
          gap_tags = [''KEEP_GAP'', ''KEEP_GAP'', ''KEEP_GAP'', ''INSERT_full-stack'',
                      ''KEEP_GAP'', ''KEEP_GAP'', ''KEEP_GAP'', ''KEEP_GAP'']\<rparr>
   \<and> [''KEEP'', ''DELETE'', ''DELETE'', ''KEEP'', ''REPLACE_building'', ''KEEP'', ''KEEP''] ! 1
       \<noteq> ''REPLACE_full-stack''
   \<and> [''KEEP'', ''DELETE'', ''DELETE'', ''KEEP'', ''REPLACE_building'', ''KEEP'', ''KEEP''] ! 3
       \<noteq> ''REPLACE_building''
   \<and> apply_tags demo_orig
        [''KEEP'', ''DELETE'', ''DELETE'', ''KEEP'', ''REPLACE_building'', ''KEEP'', ''KEEP'']
       \<noteq> ''a full-stack engineer building web apps''"
  unfolding demo_result
  by (simp add: demo_orig_tokens apply_tags_zip reconstruct_spec_def spec_piece_def)

text \<open>
  Claim C2, amended.  For the demo pair the tags are
  \<^verbatim>\<open>KEEP DELETE DELETE KEEP REPLACE_building KEEP KEEP\<close>: \<^verbatim>\<open>DELETE\<close> at index 1 and 2,
  \<^verbatim>\<open>REPLACE_building\<close> at index 4; the insertion \<^verbatim>\<open>INSERT_full-stack\<close> is recorded
  at gap 3; applying the tags to the original tokens yields
  \<^verbatim>\<open>a engineer building web apps\<close>.
\<close>

theorem demo_scenario:
  "map_sum id tags (diff_to_tags demo_orig demo_cor) =
     Inr [''KEEP'', ''DELETE'', ''DELETE'', ''KEEP'', ''REPLACE_building'', ''KEEP'', ''KEEP'']
   \<and> map_sum id gap_tags (diff_to_tags demo_orig demo_cor) =
     Inr [''KEEP_GAP'', ''KEEP_GAP'', ''KEEP_GAP'', ''INSERT_full-stack'',
          ''KEEP_GAP'', ''KEEP_GAP'', ''KEEP_GAP'', ''KEEP_GAP'']
   \<and> apply_tags demo_orig
        [''KEEP'', ''DELETE'', ''DELETE'', ''KEEP'', ''REPLACE_building'', ''KEEP'', ''KEEP'']
       = ''a engineer building web apps''"
  unfolding demo_result
  by (simp add: demo_orig_tokens apply_tags_zip reconstruct_spec_def spec_piece_def)

section \<open>Tag vocabulary (build\_tag\_vocab)\<close>

text \<open>
  \<^verbatim>\<open>tag_set\<close> starts as \<^verbatim>\<open>{KEEP, DELETE}\<close> and is updated with the tags of every
  example; \<^verbatim>\<open>sorted\<close> orders the set (strings compare lexicographically, character by
  character); the dict comprehension over \<^verbatim>\<open>enumerate(tag_list)\<close> stores the index
  of every tag, a later entry overwriting an earlier one.
\<close>

definition build_tag_vocab :: "TaggedExample list \<Rightarrow> tag list \<times> (tag \<rightharpoonup> nat)" where
  "build_tag_vocab examples =
     (let tag_set = fold (\<lambda>ex s. s \<union> set (tags ex)) examples {KEEP, DELETE};
          tag_list = sorted_list_of_set tag_set
      in (tag_list, fold (\<lambda>(i, t) d. d(t \<mapsto> i)) (enumerate 0 tag_list) Map.empty))"

definition all_tags :: "TaggedExample list \<Rightarrow> tag set" where
  "all_tags examples = {KEEP, DELETE} \<union> (\<Union>ex \<in> set examples. set (tags ex))"

lemma fold_tag_set:
  "fold (\<lambda>ex s. s \<union> set (tags ex)) examples s0 = s0 \<union> (\<Union>ex \<in> set examples. set (tags ex))"
  by (induction examples arbitrary: s0) auto

lemma finite_all_tags: "finite (all_tags examples)"
  by (simp add: all_tags_def)

lemma fold_enumerate_dom:
  "dom (fold (\<lambda>(i, t) d. d(t \<mapsto> i)) (enumerate n xs) d0) = dom d0 \<union> set xs"
  by (induction xs arbitrary: n d0) auto

lemma fold_enumerate_notin:
  "t \<notin> set xs \<Longrightarrow> fold (\<lambda>(i, t) d. d(t \<mapsto> i)) (enumerate n xs) d0 t = d0 t"
  by (induction xs arbitrary: n d0) auto

lemma fold_enumerate_nth:
  "distinct xs \<Longrightarrow> i < length xs \<Longrightarrow>
     fold (\<lambda>(i, t) d. d(t \<mapsto> i)) (enumerate n xs) d0 (xs ! i) = Some (n + i)"
proof (induction xs arbitrary: n d0 i)
  case Nil
  then show ?case by simp
next
  case (Cons x xs)
  show ?case
  proof (cases i)
    case 0
    then show ?thesis using Cons.prems
      by (simp add: fold_enumerate_notin fun_upd_same del: fun_upd_apply)
  next
    case (Suc i')
    then show ?thesis using Cons.prems Cons.IH [of i' "Suc n"] by simp
  qed
qed

lemma build_tag_vocab_list:
  "fst (build_tag_vocab examples) = sorted_list_of_set (all_tags examples)"
  by (simp add: build_tag_vocab_def all_tags_def fold_tag_set Let_def)

lemma build_tag_vocab_map:
  "snd (build_tag_vocab examples) =
     fold (\<lambda>(i, t) d. d(t \<mapsto> i)) (enumerate 0 (sorted_list_of_set (all_tags examples))) Map.empty"
  by (simp add: build_tag_vocab_def all_tags_def fold_tag_set Let_def)

lemma build_tag_vocab_same_set:
  "all_tags exs' = all_tags exs \<Longrightarrow> build_tag_vocab exs' = build_tag_vocab exs"
  by (simp add: prod_eq_iff build_tag_vocab_list build_tag_vocab_map)

text \<open>
  Claim C6.  For every list of examples, with \<open>S\<close> the union of \<^verbatim>\<open>KEEP\<close>,
  \<^verbatim>\<open>DELETE\<close> and the per-token tags of all examples: the tag list is \<open>S\<close> in strictly
  increasing order, the mapping is defined exactly on \<open>S\<close> (so \<^verbatim>\<open>KEEP\<close> and
  \<^verbatim>\<open>DELETE\<close> are always in it) and sends the tag at position \<open>i\<close> of the list to
  \<open>i\<close>; the gap tags of the examples play no part; and two example lists with the same
  set of examples (any reordering, with or without repetitions) give the same vocabulary.
\<close>

theorem build_tag_vocab_sorted_dense_stable:
  "set (fst (build_tag_vocab exs)) = all_tags exs
   \<and> sorted (fst (build_tag_vocab exs)) \<and> distinct (fst (build_tag_vocab exs))
   \<and> dom (snd (build_tag_vocab exs)) = all_tags exs
   \<and> KEEP \<in> dom (snd (build_tag_vocab exs)) \<and> DELETE \<in> dom (snd (build_tag_vocab exs))
   \<and> (\<forall>i < length (fst (build_tag_vocab exs)).
         snd (build_tag_vocab exs) (fst (build_tag_vocab exs) ! i) = Some i)
   \<and> build_tag_vocab (map (\<lambda>ex. ex\<lparr>gap_tags := g ex\<rparr>) exs) = build_tag_vocab exs
   \<and> (set exs' = set exs \<longrightarrow> build_tag_vocab exs' = build_tag_vocab exs)"
proof -
  have fin: "finite (all_tags exs)" by (rule finite_all_tags)
  have s: "set (fst (build_tag_vocab exs)) = all_tags exs"
    by (simp add: build_tag_vocab_list fin)
  have so: "sorted (fst (build_tag_vocab exs))" "distinct (fst (build_tag_vocab exs))"
    by (simp_all add: build_tag_vocab_list)
  have d: "dom (snd (build_tag_vocab exs)) = all_tags exs"
    by (simp add: build_tag_vocab_map fold_enumerate_dom fin)
  have kd: "KEEP \<in> all_tags exs" "DELETE \<in> all_tags exs"
    by (simp_all add: all_tags_def)
  have ix: "\<forall>i < length (fst (build_tag_vocab exs)).
         snd (build_tag_vocab exs) (fst (build_tag_vocab exs) ! i) = Some i"
    using fold_enumerate_nth [of "sorted_list_of_set (all_tags exs)" _ 0 Map.empty]
    by (simp add: build_tag_vocab_map build_tag_vocab_list)
  have g: "build_tag_vocab (map (\<lambda>ex. ex\<lparr>gap_tags := g ex\<rparr>) exs) = build_tag_vocab exs"
    by (rule build_tag_vocab_same_set) (simp add: all_tags_def)
  have p: "set exs' = set exs \<longrightarrow> build_tag_vocab exs' = build_tag_vocab exs"
    by (auto intro: build_tag_vocab_same_set simp: all_tags_def)
  show ?thesis using s so d kd ix g p by simp
qed

theorem build_tag_vocab_sorted_dense_stable_witness:
  "build_tag_vocab
     [\<lparr>tokens = [''x'', ''b''], tags = [''REPLACE_a'', ''KEEP''], gap_tags = []\<rparr>,
      \<lparr>tokens = [''c''], tags = [''DELETE''], gap_tags = [''INSERT_q'', ''KEEP_GAP'']\<rparr>,
      \<lparr>tokens = [''x'', ''b''], tags = [''REPLACE_a'', ''KEEP''], gap_tags = []\<rparr>]
   = build_tag_vocab
     [\<lparr>tokens = [''c''], tags = [''DELETE''], gap_tags = [''INSERT_q'', ''KEEP_GAP'']\<rparr>,
      \<lparr>tokens = [''x'', ''b''], tags = [''REPLACE_a'', ''KEEP''], gap_tags = []\<rparr>]
   \<and> fst (build_tag_vocab
     [\<lparr>tokens = [''c''], tags = [''DELETE''], gap_tags = [''INSERT_q'', ''KEEP_GAP'']\<rparr>,
      \<lparr>tokens = [''x'', ''b''], tags = [''REPLACE_a'', ''KEEP''], gap_tags = []\<rparr>])
     = [''DELETE'', ''KEEP'', ''REPLACE_a'']"
proof -
  have "fst (build_tag_vocab
     [\<lparr>tokens = [''c''], tags = [''DELETE''], gap_tags = [''INSERT_q'', ''KEEP_GAP'']\<rparr>,
      \<lparr>tokens = [''x'', ''b''], tags = [''REPLACE_a'', ''KEEP''], gap_tags = []\<rparr>])
     = [''DELETE'', ''KEEP'', ''REPLACE_a'']"
    by code_simp
  then show ?thesis
    using build_tag_vocab_sorted_dense_stable
      [of "[\<lparr>tokens = [''c''], tags = [''DELETE''], gap_tags = [''INSERT_q'', ''KEEP_GAP'']\<rparr>,
            \<lparr>tokens = [''x'', ''b''], tags = [''REPLACE_a'', ''KEEP''], gap_tags = []\<rparr>]"
          undefined
          "[\<lparr>tokens = [''x'', ''b''], tags = [''REPLACE_a'', ''KEEP''], gap_tags = []\<rparr>,
            \<lparr>tokens = [''c''], tags = [''DELETE''], gap_tags = [''INSERT_q'', ''KEEP_GAP'']\<rparr>,
            \<lparr>tokens = [''x'', ''b''], tags = [''REPLACE_a'', ''KEEP''], gap_tags = []\<rparr>]"]
    by auto
qed

section \<open>Training labels (TagDatasetBuilder.encode\_examples)\<close>

text \<open>
  The label loop of \<^verbatim>\<open>encode_examples\<close> for one example.  \<^verbatim>\<open>word_ids\<close> comes from
  the tokenizer: per sub-token position the index of its word, or \<^verbatim>\<open>None\<close>.  The tag
  vocabulary is the one \<^verbatim>\<open>build_tag_vocab\<close> made (ids are list positions), the labels
  are integers, \<open>-100\<close> is the ignore label.  \<^verbatim>\<open>tag2id.get(tag, tag2id[KEEP])\<close>
  evaluates \<^verbatim>\<open>tag2id[KEEP]\<close> first, which raises \<^verbatim>\<open>KeyError\<close> when \<^verbatim>\<open>KEEP\<close>
  is missing.  The loop runs over \<^verbatim>\<open>enumerate(word_ids)\<close>: \<open>idx\<close> is the position,
  the fifth argument the word ids from \<open>idx\<close> on.
\<close>

fun encode_loop ::
  "nat option list \<Rightarrow> tag list \<Rightarrow> (tag \<rightharpoonup> nat) \<Rightarrow> nat \<Rightarrow> nat option list \<Rightarrow> int list \<Rightarrow>
   py_error + int list" where
  "encode_loop word_ids tag_seq tag2id idx [] labels = Inr labels"
| "encode_loop word_ids tag_seq tag2id idx (None # rest) labels =
     encode_loop word_ids tag_seq tag2id (Suc idx) rest labels"
| "encode_loop word_ids tag_seq tag2id idx (Some w_id # rest) labels =
     (if idx = 0 \<or> word_ids ! (idx - 1) \<noteq> Some w_id then
        (let tg = (if w_id < length tag_seq then tag_seq ! w_id else KEEP) in
         case tag2id KEEP of
           None \<Rightarrow> Inl KeyError
         | Some keep_id \<Rightarrow>
             encode_loop word_ids tag_seq tag2id (Suc idx) rest
               (labels[idx := int (case tag2id tg of None \<Rightarrow> keep_id | Some v \<Rightarrow> v)]))
      else encode_loop word_ids tag_seq tag2id (Suc idx) rest labels)"

definition encode_labels ::
  "nat option list \<Rightarrow> tag list \<Rightarrow> (tag \<rightharpoonup> nat) \<Rightarrow> py_error + int list" where
  "encode_labels word_ids tag_seq tag2id =
     encode_loop word_ids tag_seq tag2id 0 word_ids (replicate (length word_ids) (- 100))"

text \<open>
  The label assignment as the specification words it: position \<open>i\<close> is the first
  sub-token of its word when \<open>i = 0\<close> or the previous word id differs; the id is that
  of the word's tag, of \<^verbatim>\<open>KEEP\<close> when the word index is beyond the tag sequence or the
  tag is not in the vocabulary.
\<close>

definition first_subtoken :: "nat option list \<Rightarrow> nat \<Rightarrow> bool" where
  "first_subtoken word_ids i \<longleftrightarrow> i = 0 \<or> word_ids ! (i - 1) \<noteq> word_ids ! i"

definition spec_tag_id :: "tag list \<Rightarrow> (tag \<rightharpoonup> nat) \<Rightarrow> nat \<Rightarrow> nat" where
  "spec_tag_id tag_seq tag2id w =
     (case tag2id (if w < length tag_seq then tag_seq ! w else KEEP) of
        None \<Rightarrow> the (tag2id KEEP)
      | Some v \<Rightarrow> v)"

definition spec_label :: "nat option list \<Rightarrow> tag list \<Rightarrow> (tag \<rightharpoonup> nat) \<Rightarrow> nat \<Rightarrow> int" where
  "spec_label word_ids tag_seq tag2id i =
     (case word_ids ! i of
        None \<Rightarrow> - 100
      | Some w \<Rightarrow> if first_subtoken word_ids i then int (spec_tag_id tag_seq tag2id w) else - 100)"

lemma encode_loop_spec:
  assumes "tag2id KEEP = Some keep_id"
    and "rest = drop idx word_ids" "idx \<le> length word_ids" "length labels = length word_ids"
  shows "\<exists>labels'. encode_loop word_ids tag_seq tag2id idx rest labels = Inr labels'
           \<and> length labels' = length word_ids
           \<and> (\<forall>i < length word_ids.
                 labels' ! i = (if i < idx then labels ! i
                                else if word_ids ! i = None \<or> \<not> first_subtoken word_ids i
                                     then labels ! i
                                     else spec_label word_ids tag_seq tag2id i))"
  using assms(2-4)
proof (induction rest arbitrary: idx labels)
  case Nil
  then have "idx = length word_ids" by simp
  then show ?case using Nil.prems(3) by simp
next
  case (Cons w rest)
  have lt: "idx < length word_ids"
    using Cons.prems(1,2) by (metis drop_all list.distinct(1) not_le_imp_less)
  have w: "word_ids ! idx = w" and rest: "rest = drop (Suc idx) word_ids"
    using Cons.prems(1) lt by (simp_all add: Cons_nth_drop_Suc [symmetric])
  have le: "Suc idx \<le> length word_ids" using lt by simp
  show ?case
  proof (cases "w = None \<or> \<not> first_subtoken word_ids idx")
    case True
    have step: "encode_loop word_ids tag_seq tag2id idx (w # rest) labels =
        encode_loop word_ids tag_seq tag2id (Suc idx) rest labels"
      using True w by (cases w) (auto simp: first_subtoken_def)
    from Cons.IH [OF rest le Cons.prems(3)] obtain labels' where
      r: "encode_loop word_ids tag_seq tag2id (Suc idx) rest labels = Inr labels'"
      and l: "length labels' = length word_ids"
      and v: "\<forall>i < length word_ids.
                 labels' ! i = (if i < Suc idx then labels ! i
                                else if word_ids ! i = None \<or> \<not> first_subtoken word_ids i
                                     then labels ! i
                                     else spec_label word_ids tag_seq tag2id i)"
      by blast
    have "\<forall>i < length word_ids.
                 labels' ! i = (if i < idx then labels ! i
                                else if word_ids ! i = None \<or> \<not> first_subtoken word_ids i
                                     then labels ! i
                                     else spec_label word_ids tag_seq tag2id i)"
      using v True w by (auto simp: less_Suc_eq)
    with r l show ?thesis unfolding step by blast
  next
    case False
    then obtain w_id where ws: "w = Some w_id" and fs: "first_subtoken word_ids idx" by auto
    define v where "v = spec_label word_ids tag_seq tag2id idx"
    have step: "encode_loop word_ids tag_seq tag2id idx (w # rest) labels =
        encode_loop word_ids tag_seq tag2id (Suc idx) rest (labels[idx := v])"
      using fs w ws assms(1)
      by (auto simp: first_subtoken_def v_def spec_label_def spec_tag_id_def Let_def
          split: option.splits)
    have len: "length (labels[idx := v]) = length word_ids" using Cons.prems(3) by simp
    from Cons.IH [OF rest le len] obtain labels' where
      r: "encode_loop word_ids tag_seq tag2id (Suc idx) rest (labels[idx := v]) = Inr labels'"
      and l: "length labels' = length word_ids"
      and v: "\<forall>i < length word_ids.
                 labels' ! i = (if i < Suc idx then labels[idx := v] ! i
                                else if word_ids ! i = None \<or> \<not> first_subtoken word_ids i
                                     then labels[idx := v] ! i
                                     else spec_label word_ids tag_seq tag2id i)"
      by blast
    have "\<forall>i < length word_ids.
                 labels' ! i = (if i < idx then labels ! i
                                else if word_ids ! i = None \<or> \<not> first_subtoken word_ids i
                                     then labels ! i
                                     else spec_label word_ids tag_seq tag2id i)"
    proof (intro allI impI)
      fix i assume i: "i < length word_ids"
      show "labels' ! i = (if i < idx then labels ! i
                                else if word_ids ! i = None \<or> \<not> first_subtoken word_ids i
                                     then labels ! i
                                     else spec_label word_ids tag_seq tag2id i)"
      proof (cases "i = idx")
        case True
        then show ?thesis using v i ws fs w Cons.prems(3) lt by (auto simp: v_def)
      next
        case False
        then show ?thesis using v i Cons.prems(3) by (auto simp: less_Suc_eq)
      qed
    qed
    with r l show ?thesis unfolding step by blast
  qed
qed

lemma encode_labels_spec:
  assumes "tag2id KEEP = Some keep_id"
  shows "encode_labels word_ids tag_seq tag2id =
           Inr (map (spec_label word_ids tag_seq tag2id) [0..<length word_ids])"
proof -
  have "\<exists>labels'. encode_loop word_ids tag_seq tag2id 0 word_ids
            (replicate (length word_ids) (- 100)) = Inr labels'
           \<and> length labels' = length word_ids
           \<and> (\<forall>i < length word_ids.
                 labels' ! i = (if i < 0 then replicate (length word_ids) (- 100) ! i
                                else if word_ids ! i = None \<or> \<not> first_subtoken word_ids i
                                     then replicate (length word_ids) (- 100) ! i
                                     else spec_label word_ids tag_seq tag2id i))"
    by (rule encode_loop_spec [where keep_id = keep_id]) (simp_all add: assms)
  then obtain labels' where
    r: "encode_labels word_ids tag_seq tag2id = Inr labels'"
    and l: "length labels' = length word_ids"
    and v: "\<forall>i < length word_ids.
              labels' ! i = (if word_ids ! i = None \<or> \<not> first_subtoken word_ids i
                             then - 100 else spec_label word_ids tag_seq tag2id i)"
    by (auto simp: encode_labels_def)
  have "labels' = map (spec_label word_ids tag_seq tag2id) [0..<length word_ids]"
  proof (rule nth_equalityI)
    show "length labels' = length (map (spec_label word_ids tag_seq tag2id) [0..<length word_ids])"
      using l by simp
  next
    fix i assume "i < length labels'"
    then have i: "i < length word_ids" using l by simp
    show "labels' ! i = map (spec_label word_ids tag_seq tag2id) [0..<length word_ids] ! i"
      using v i by (auto simp: spec_label_def split: option.splits)
  qed
  with r show ?thesis by simp
qed

lemma spec_label_run:
  assumes "word_ids = pre @ replicate k (Some w) @ post" "0 < k" "pre = [] \<or> last pre \<noteq> Some w"
    and "t < k"
  shows "spec_label word_ids tag_seq tag2id (length pre + t) =
           (if t = 0 then int (spec_tag_id tag_seq tag2id w) else - 100)"
proof -
  have at: "word_ids ! (length pre + t) = Some w"
    using assms(1,4) by (simp add: nth_append)
  show ?thesis
  proof (cases t)
    case 0
    have "first_subtoken word_ids (length pre)"
    proof (cases "pre = []")
      case True
      then show ?thesis by (simp add: first_subtoken_def)
    next
      case False
      then have "word_ids ! (length pre - 1) = last pre"
        using assms(1) by (simp add: nth_append last_conv_nth)
      moreover have "word_ids ! length pre = Some w"
        using at 0 by simp
      ultimately show ?thesis using assms(3) False by (simp add: first_subtoken_def)
    qed
    then show ?thesis using at 0 by (simp add: spec_label_def)
  next
    case (Suc t')
    have "word_ids ! (length pre + t') = Some w"
      using assms(1,4) Suc by (simp add: nth_append)
    then have "\<not> first_subtoken word_ids (length pre + t)"
      using at Suc by (simp add: first_subtoken_def)
    then show ?thesis using at Suc by (simp add: spec_label_def)
  qed
qed

text \<open>
  Claim C7.  With \<^verbatim>\<open>KEEP\<close> in the vocabulary the label loop returns one label per
  position; the label is \<open>-100\<close> where the word id is \<^verbatim>\<open>None\<close> and at every position
  that is not the first sub-token of its word, and the id of the word's tag at the first
  sub-token, which is not \<open>-100\<close>; a word occupying \<open>k\<close> consecutive positions has its
  tag id at the first and \<open>-100\<close> at the other \<open>k - 1\<close>; the id is that of \<^verbatim>\<open>KEEP\<close>
  when the word index is not below the length of the tag sequence or the tag is not in
  the vocabulary.
\<close>

theorem encode_labels_first_subtoken_only:
  assumes "tag2id KEEP = Some keep_id"
  shows "\<exists>labels. encode_labels word_ids tag_seq tag2id = Inr labels
     \<and> length labels = length word_ids
     \<and> (\<forall>i < length word_ids.
          labels ! i = (if word_ids ! i = None \<or> \<not> first_subtoken word_ids i then - 100
                        else int (spec_tag_id tag_seq tag2id (the (word_ids ! i)))))
     \<and> (\<forall>i < length word_ids.
          labels ! i \<noteq> - 100 \<longleftrightarrow> word_ids ! i \<noteq> None \<and> first_subtoken word_ids i)
     \<and> (\<forall>pre k w post.
          word_ids = pre @ replicate k (Some w) @ post \<and> 0 < k \<and> (pre = [] \<or> last pre \<noteq> Some w)
          \<longrightarrow> take k (drop (length pre) labels)
                = int (spec_tag_id tag_seq tag2id w) # replicate (k - 1) (- 100))
     \<and> (\<forall>w. length tag_seq \<le> w \<longrightarrow> spec_tag_id tag_seq tag2id w = keep_id)
     \<and> (\<forall>w < length tag_seq.
          spec_tag_id tag_seq tag2id w
            = (case tag2id (tag_seq ! w) of None \<Rightarrow> keep_id | Some v \<Rightarrow> v))"
proof -
  define labels where "labels = map (spec_label word_ids tag_seq tag2id) [0..<length word_ids]"
  have r: "encode_labels word_ids tag_seq tag2id = Inr labels"
    unfolding labels_def
    by (rule encode_labels_spec [where tag2id = tag2id and keep_id = keep_id, OF assms])
  have len: "length labels = length word_ids" by (simp add: labels_def)
  have nth: "\<And>i. i < length word_ids \<Longrightarrow> labels ! i = spec_label word_ids tag_seq tag2id i"
    by (simp add: labels_def)
  have c1: "\<forall>i < length word_ids.
          labels ! i = (if word_ids ! i = None \<or> \<not> first_subtoken word_ids i then - 100
                        else int (spec_tag_id tag_seq tag2id (the (word_ids ! i))))"
    by (auto simp: nth spec_label_def split: option.splits)
  have c2: "\<forall>i < length word_ids.
          labels ! i \<noteq> - 100 \<longleftrightarrow> word_ids ! i \<noteq> None \<and> first_subtoken word_ids i"
    using c1 by auto
  have c3: "\<forall>pre k w post.
          word_ids = pre @ replicate k (Some w) @ post \<and> 0 < k \<and> (pre = [] \<or> last pre \<noteq> Some w)
          \<longrightarrow> take k (drop (length pre) labels)
                = int (spec_tag_id tag_seq tag2id w) # replicate (k - 1) (- 100)"
  proof (intro allI impI, elim conjE)
    fix pre :: "nat option list" and k w post
    assume w: "word_ids = pre @ replicate k (Some w) @ post" and k: "0 < k"
      and p: "pre = [] \<or> last pre \<noteq> Some w"
    show "take k (drop (length pre) labels)
            = int (spec_tag_id tag_seq tag2id w) # replicate (k - 1) (- 100)"
    proof (rule nth_equalityI)
      show "length (take k (drop (length pre) labels))
          = length (int (spec_tag_id tag_seq tag2id w) # replicate (k - 1) (- 100))"
        using w k len by simp
    next
      fix t assume "t < length (take k (drop (length pre) labels))"
      then have t: "t < k" by simp
      then have "length pre + t < length word_ids" using w by simp
      then have "take k (drop (length pre) labels) ! t
          = spec_label word_ids tag_seq tag2id (length pre + t)"
        using t len by (simp add: nth)
      also have "\<dots> = (if t = 0 then int (spec_tag_id tag_seq tag2id w) else - 100)"
        by (rule spec_label_run [OF w k p t])
      also have "\<dots> = (int (spec_tag_id tag_seq tag2id w) # replicate (k - 1) (- 100)) ! t"
        using t by (cases t) simp_all
      finally show "take k (drop (length pre) labels) ! t
          = (int (spec_tag_id tag_seq tag2id w) # replicate (k - 1) (- 100)) ! t" .
    qed
  qed
  have c4: "\<forall>w. length tag_seq \<le> w \<longrightarrow> spec_tag_id tag_seq tag2id w = keep_id"
    using assms by (simp add: spec_tag_id_def)
  have c5: "\<forall>w < length tag_seq.
          spec_tag_id tag_seq tag2id w
            = (case tag2id (tag_seq ! w) of None \<Rightarrow> keep_id | Some v \<Rightarrow> v)"
    using assms by (simp add: spec_tag_id_def split: option.splits)
  show ?thesis using r len c1 c2 c3 c4 c5 by blast
qed

theorem encode_labels_first_subtoken_only_witness:
  "[''DELETE'' \<mapsto> 0, ''KEEP'' \<mapsto> 1, ''REPLACE_x'' \<mapsto> 2] KEEP = Some (1::nat)
   \<and> encode_labels [None, Some 0, Some 0, Some 1, Some 2, Some 2, Some 2, Some 3, None]
        [''REPLACE_x'', ''REPLACE_y'', ''DELETE'']
        [''DELETE'' \<mapsto> 0, ''KEEP'' \<mapsto> 1, ''REPLACE_x'' \<mapsto> 2]
       = Inr [- 100, 2, - 100, 1, 0, - 100, - 100, 1, - 100]"
proof -
  have k: "[''DELETE'' \<mapsto> 0, ''KEEP'' \<mapsto> 1, ''REPLACE_x'' \<mapsto> 2] KEEP = Some (1::nat)"
    by (simp add: KEEP_def)
  have e: "encode_labels [None, Some 0, Some 0, Some 1, Some 2, Some 2, Some 2, Some 3, None]
        [''REPLACE_x'', ''REPLACE_y'', ''DELETE'']
        [''DELETE'' \<mapsto> 0, ''KEEP'' \<mapsto> 1, ''REPLACE_x'' \<mapsto> 2]
       = Inr [- 100, 2, - 100, 1, 0, - 100, - 100, 1, - 100]"
    by (simp add: encode_labels_def KEEP_def)
  show ?thesis
    using encode_labels_first_subtoken_only
        [where tag2id = "[''DELETE'' \<mapsto> 0, ''KEEP'' \<mapsto> 1, ''REPLACE_x'' \<mapsto> 2]"
           and keep_id = 1
           and word_ids = "[None, Some 0, Some 0, Some 1, Some 2, Some 2, Some 2, Some 3, None]"
           and tag_seq = "[''REPLACE_x'', ''REPLACE_y'', ''DELETE'']", OF k] k e
    by blast
qed

section \<open>The matching blocks form a chain\<close>

text \<open>
  A region \<open>(alo, ahi, blo, bhi)\<close> lies before another when it ends, in both
  sequences, where the other starts or earlier; two regions are apart when one lies
  before the other.  A block \<open>(i, j, k)\<close> covers the region
  \<open>(i, i + k, j, j + k)\<close>.
\<close>

fun rbefore :: "region \<Rightarrow> region \<Rightarrow> bool" where
  "rbefore (alo, ahi, blo, bhi) (alo', ahi', blo', bhi') \<longleftrightarrow> ahi \<le> alo' \<and> bhi \<le> blo'"

definition apart :: "region \<Rightarrow> region \<Rightarrow> bool" where
  "apart r r' \<longleftrightarrow> rbefore r r' \<or> rbefore r' r"

fun inside :: "region \<Rightarrow> region \<Rightarrow> bool" where
  "inside (alo, ahi, blo, bhi) (alo', ahi', blo', bhi') \<longleftrightarrow>
     alo' \<le> alo \<and> alo \<le> ahi \<and> ahi \<le> ahi' \<and> blo' \<le> blo \<and> blo \<le> bhi \<and> bhi \<le> bhi'"

fun block_region :: "match \<Rightarrow> region" where
  "block_region (i, j, k) = (i, i + k, j, j + k)"

fun before :: "match \<Rightarrow> match \<Rightarrow> bool" where
  "before (i, j, k) (i', j', k') \<longleftrightarrow> i + k \<le> i' \<and> j + k \<le> j'"

lemma apart_sym: "apart r r' \<Longrightarrow> apart r' r"
  by (auto simp: apart_def)

lemma apart_inside: "inside r r' \<Longrightarrow> apart r' x \<Longrightarrow> apart r x"
  by (cases r; cases r'; cases x) (auto simp: apart_def)

lemma inside_trans: "inside r r' \<Longrightarrow> inside r' r'' \<Longrightarrow> inside r r''"
  by (cases r; cases r'; cases r'') auto

lemma not_apart_inside:
  assumes "inside (block_region m) r" "block_size m \<noteq> 0"
  shows "\<not> apart (block_region m) r"
  using assms by (cases m; cases r) (auto simp: apart_def)

text \<open>The invariant of the work-list loop.\<close>

definition gmb_inv :: "region \<Rightarrow> region list \<Rightarrow> match list \<Rightarrow> bool" where
  "gmb_inv whole queue mb \<longleftrightarrow>
     sorted_wrt apart queue
     \<and> sorted_wrt (\<lambda>m m'. apart (block_region m) (block_region m')) mb
     \<and> (\<forall>m \<in> set mb. \<forall>r \<in> set queue. apart (block_region m) r)
     \<and> (\<forall>r \<in> set queue. inside r whole)
     \<and> (\<forall>m \<in> set mb. inside (block_region m) whole \<and> block_size m \<noteq> 0)"

lemma gmb_inv_skip: "gmb_inv whole (r # queue) mb \<Longrightarrow> gmb_inv whole queue mb"
  by (auto simp: gmb_inv_def)

lemma gmb_inv_step:
  assumes inv: "gmb_inv whole ((alo, ahi, blo, bhi) # queue) mb"
    and k: "k \<noteq> 0"
    and b: "alo \<le> i" "i + k \<le> ahi" "blo \<le> j" "j + k \<le> bhi"
  shows "gmb_inv whole
           ((if i + k < ahi \<and> j + k < bhi then [(i + k, ahi, j + k, bhi)] else [])
            @ (if alo < i \<and> blo < j then [(alo, i, blo, j)] else [])
            @ queue)
           (mb @ [(i, j, k)])"
proof -
  let ?r = "(alo, ahi, blo, bhi)"
  let ?R = "(i + k, ahi, j + k, bhi)"
  let ?L = "(alo, i, blo, j)"
  let ?m = "(i, j, k)"
  have iR: "inside ?R ?r" and iL: "inside ?L ?r" and im: "inside (block_region ?m) ?r"
    using b by auto
  have rq: "\<forall>y \<in> set queue. apart ?r y" and sq: "sorted_wrt apart queue"
    using inv by (auto simp: gmb_inv_def)
  have mr: "\<forall>x \<in> set mb. apart (block_region x) ?r"
    using inv by (auto simp: gmb_inv_def)
  have rw: "inside ?r whole" using inv by (auto simp: gmb_inv_def)
  have LR: "apart ?R ?L" "apart (block_region ?m) ?R" "apart (block_region ?m) ?L"
    by (auto simp: apart_def)
  have Rq: "\<forall>y \<in> set queue. apart ?R y" and Lq: "\<forall>y \<in> set queue. apart ?L y"
    and mq: "\<forall>y \<in> set queue. apart (block_region ?m) y"
    using rq iR iL im by (blast intro: apart_inside)+
  have xR: "\<forall>x \<in> set mb. apart (block_region x) ?R"
    and xL: "\<forall>x \<in> set mb. apart (block_region x) ?L"
    and xm: "\<forall>x \<in> set mb. apart (block_region x) (block_region ?m)"
    using mr iR iL im by (blast intro: apart_inside apart_sym)+
  have q': "sorted_wrt apart
      ((if i + k < ahi \<and> j + k < bhi then [?R] else [])
       @ (if alo < i \<and> blo < j then [?L] else []) @ queue)"
    using sq Rq Lq LR(1) by (auto simp: sorted_wrt_append)
  have mb': "sorted_wrt (\<lambda>m m'. apart (block_region m) (block_region m')) (mb @ [?m])"
    using inv xm by (auto simp: gmb_inv_def sorted_wrt_append)
  have cross: "\<forall>m \<in> set (mb @ [?m]). \<forall>r \<in> set
      ((if i + k < ahi \<and> j + k < bhi then [?R] else [])
       @ (if alo < i \<and> blo < j then [?L] else []) @ queue). apart (block_region m) r"
    using inv xR xL mq LR(2,3) by (auto simp: gmb_inv_def)
  have ins: "\<forall>r \<in> set ((if i + k < ahi \<and> j + k < bhi then [?R] else [])
       @ (if alo < i \<and> blo < j then [?L] else []) @ queue). inside r whole"
    using inv inside_trans [OF iR rw] inside_trans [OF iL rw] by (auto simp: gmb_inv_def)
  have insm: "\<forall>m \<in> set (mb @ [?m]). inside (block_region m) whole \<and> block_size m \<noteq> 0"
    using inv inside_trans [OF im rw] k by (auto simp: gmb_inv_def)
  show ?thesis
    unfolding gmb_inv_def using q' mb' cross ins insm by blast
qed

lemma gmb_loop_inv:
  "gmb_inv whole queue mb \<Longrightarrow> gmb_inv whole [] (gmb_loop a b b2j bjunk queue mb)"
proof (induction a b b2j bjunk queue mb rule: gmb_loop.induct)
  case (1 a b b2j bjunk matching_blocks)
  then show ?case by (simp add: gmb_loop.simps)
next
  case (2 a b b2j bjunk alo ahi blo bhi queue matching_blocks)
  obtain i j k where f: "find_longest_match a b b2j bjunk alo ahi blo bhi = (i, j, k)"
    by (cases "find_longest_match a b b2j bjunk alo ahi blo bhi")
  show ?case
  proof (cases "k = 0")
    case True
    have "gmb_inv whole [] (gmb_loop a b b2j bjunk queue matching_blocks)"
      using "2.IH"(2) [OF f [symmetric] refl] True gmb_inv_skip [OF "2.prems"] by simp
    then show ?thesis using f True by (simp add: gmb_loop.simps)
  next
    case False
    note bnd = find_longest_match_bounds [OF f False]
    have "gmb_inv whole [] (gmb_loop a b b2j bjunk
           ((if i + k < ahi \<and> j + k < bhi then [(i + k, ahi, j + k, bhi)] else [])
            @ (if alo < i \<and> blo < j then [(alo, i, blo, j)] else [])
            @ queue)
           (matching_blocks @ [(i, j, k)]))"
      using "2.IH"(1) [OF f [symmetric] refl False]
        gmb_inv_step [OF "2.prems" False bnd] by simp
    then show ?thesis using f False by (simp add: gmb_loop.simps)
  qed
qed

lemma sorted_wrt_sym_pairs:
  assumes "sorted_wrt P xs" "\<And>x y. P x y \<Longrightarrow> P y x" "x \<in> set xs" "y \<in> set xs" "x \<noteq> y"
  shows "P x y"
  using assms(1,3,4,5)
proof (induction xs)
  case Nil
  then show ?case by simp
next
  case (Cons z zs)
  then show ?case using assms(2) by auto
qed

lemma sorted_wrt_irrefl_distinct:
  "sorted_wrt P xs \<Longrightarrow> \<forall>x \<in> set xs. \<not> P x x \<Longrightarrow> distinct xs"
  by (induction xs) auto

lemma less_apart_before:
  assumes "m < m'" "apart (block_region m) (block_region m')" "block_size m' \<noteq> 0"
  shows "before m m'"
proof -
  obtain i j k where m: "m = (i, j, k)" by (cases m)
  obtain i' j' k' where m': "m' = (i', j', k')" by (cases m')
  show ?thesis
    using assms unfolding m m' by (auto simp: apart_def less_prod_def)
qed

text \<open>
  The blocks found by the work list, once sorted as tuples, are in chain order: each
  ends, in both sequences, before the next starts.
\<close>

lemma sorted_blocks_chain:
  assumes "gmb_inv whole [] mb"
  shows "sorted_wrt before (sort mb)"
proof -
  let ?P = "\<lambda>m m'. apart (block_region m) (block_region m')"
  have sw: "sorted_wrt ?P mb" and nz: "\<forall>m \<in> set mb. block_size m \<noteq> 0"
    and ins: "\<forall>m \<in> set mb. inside (block_region m) whole"
    using assms by (auto simp: gmb_inv_def)
  have irr: "\<forall>m \<in> set mb. \<not> ?P m m"
  proof
    fix m assume "m \<in> set mb"
    then have "block_size m \<noteq> 0" using nz by blast
    then show "\<not> ?P m m" by (cases m) (auto simp: apart_def)
  qed
  have d: "distinct mb" by (rule sorted_wrt_irrefl_distinct [OF sw irr])
  have pairs: "\<And>x y. x \<in> set mb \<Longrightarrow> y \<in> set mb \<Longrightarrow> x \<noteq> y \<Longrightarrow> ?P x y"
    by (rule sorted_wrt_sym_pairs [OF sw]) (auto intro: apart_sym)
  have "sorted_wrt (<) (sort mb)"
    using d by (simp add: strict_sorted_iff)
  then show ?thesis
  proof (rule sorted_wrt_mono_rel [rotated])
    fix x y assume "x \<in> set (sort mb)" "y \<in> set (sort mb)" "x < y"
    then have "x \<in> set mb" "y \<in> set mb" "x \<noteq> y" by auto
    from pairs [OF this] nz \<open>y \<in> set mb\<close> \<open>x < y\<close> show "before x y"
      by (intro less_apart_before) auto
  qed
qed

text \<open>
  What \<^verbatim>\<open>get_opcodes\<close> needs of the block list: walking it from \<open>(i, j)\<close>, every
  block starts at or after the current position in both sequences.
\<close>

fun monotone_blocks :: "nat \<Rightarrow> nat \<Rightarrow> match list \<Rightarrow> bool" where
  "monotone_blocks i j [] = True"
| "monotone_blocks i j ((ai, bj, sz) # rest) \<longleftrightarrow>
     i \<le> ai \<and> j \<le> bj \<and> monotone_blocks (ai + sz) (bj + sz) rest"

lemma monotone_blocks_weaken:
  "monotone_blocks i j bs \<Longrightarrow> i' \<le> i \<Longrightarrow> j' \<le> j \<Longrightarrow> monotone_blocks i' j' bs"
  by (cases bs) auto

lemma chain_monotone:
  assumes "sorted_wrt before bs"
    and "\<forall>m \<in> set bs. inside (block_region m) (0, la, 0, lb)"
    and "\<forall>m \<in> set bs. before (i0, j0, 0) m"
    and "i0 \<le> la" "j0 \<le> lb"
  shows "monotone_blocks i0 j0 (bs @ [(la, lb, 0)])"
  using assms
proof (induction bs arbitrary: i0 j0)
  case Nil
  then show ?case by simp
next
  case (Cons m bs)
  obtain i j k where m: "m = (i, j, k)" by (cases m)
  have "monotone_blocks (i + k) (j + k) (bs @ [(la, lb, 0)])"
  proof (rule Cons.IH)
    show "sorted_wrt before bs" using Cons.prems(1) by simp
    show "\<forall>m \<in> set bs. inside (block_region m) (0, la, 0, lb)" using Cons.prems(2) by simp
    show "\<forall>m' \<in> set bs. before (i + k, j + k, 0) m'"
    proof
      fix m' assume "m' \<in> set bs"
      then have "before m m'" using Cons.prems(1) by simp
      then show "before (i + k, j + k, 0) m'" unfolding m by (cases m') simp
    qed
    show "i + k \<le> la" "j + k \<le> lb" using Cons.prems(2) m by auto
  qed
  moreover have "i0 \<le> i" "j0 \<le> j" using Cons.prems(3) m by auto
  ultimately show ?case by (simp add: m)
qed

text \<open>Collapsing adjacent blocks keeps the walk monotone.\<close>

lemma collapse_monotone:
  assumes "monotone_blocks i j (acc @ cur # bs @ [s])"
  shows "monotone_blocks i j (collapse bs cur acc @ [s])"
  using assms
proof (induction bs cur acc arbitrary: i j rule: collapse.induct)
  case (1 i1 j1 k1 non_adjacent)
  show ?case
  proof (cases "k1 = 0")
    case True
    have "monotone_blocks i j (non_adjacent @ [s])"
      using "1.prems" True
    proof (induction non_adjacent arbitrary: i j)
      case Nil
      then show ?case by (cases s) auto
    next
      case (Cons x xs)
      then show ?case by (cases x) auto
    qed
    then show ?thesis using True by simp
  next
    case False
    then show ?thesis using "1.prems" by simp
  qed
next
  case (2 i2 j2 k2 rest i1 j1 k1 non_adjacent)
  show ?case
  proof (cases "i1 + k1 = i2 \<and> j1 + k1 = j2")
    case True
    have "monotone_blocks i j (non_adjacent @ (i1, j1, k1 + k2) # rest @ [s])"
      using "2.prems" True
    proof (induction non_adjacent arbitrary: i j)
      case Nil
      then show ?case by (auto simp: add.assoc [symmetric])
    next
      case (Cons x xs)
      then show ?case by (cases x) auto
    qed
    from "2.IH"(1) [OF True this] True show ?thesis by simp
  next
    case False
    have "monotone_blocks i j
        ((if k1 \<noteq> 0 then non_adjacent @ [(i1, j1, k1)] else non_adjacent)
         @ (i2, j2, k2) # rest @ [s])"
    proof (cases "k1 = 0")
      case True
      have "monotone_blocks i j (non_adjacent @ (i2, j2, k2) # rest @ [s])"
        using "2.prems" True
      proof (induction non_adjacent arbitrary: i j)
        case Nil
        then show ?case by auto
      next
        case (Cons x xs)
        then show ?case by (cases x) auto
      qed
      then show ?thesis using True by simp
    next
      case False
      then show ?thesis using "2.prems" by simp
    qed
    from "2.IH"(2) [OF False this] show ?thesis
      unfolding collapse.simps if_not_P [OF False] .
  qed
qed

lemma get_matching_blocks_monotone:
  "monotone_blocks 0 0 (get_matching_blocks a b)"
proof -
  let ?whole = "(0, length a, 0, length b)"
  let ?mb = "gmb_loop a b (chain_b b) {} [?whole] []"
  have "gmb_inv ?whole [?whole] []" by (simp add: gmb_inv_def)
  then have inv: "gmb_inv ?whole [] ?mb" by (rule gmb_loop_inv)
  have ch: "sorted_wrt before (sort ?mb)" by (rule sorted_blocks_chain [OF inv])
  have ins: "\<forall>m \<in> set (sort ?mb). inside (block_region m) ?whole"
    using inv by (auto simp: gmb_inv_def)
  have "monotone_blocks 0 0 (sort ?mb @ [(length a, length b, 0)])"
    by (rule chain_monotone [OF ch ins]) (auto split: prod.splits)
  then have "monotone_blocks 0 0 ([] @ (0, 0, 0) # sort ?mb @ [(length a, length b, 0)])"
    by simp
  then have "monotone_blocks 0 0 (collapse (sort ?mb) (0, 0, 0) [] @ [(length a, length b, 0)])"
    by (rule collapse_monotone)
  then show ?thesis by (simp add: get_matching_blocks_def Let_def)
qed

section \<open>The opcodes tile both sequences\<close>

text \<open>
  An opcode list tiles the sequences from \<open>(i, j)\<close> to \<open>(la, lb)\<close> when every opcode
  starts where the one before ended, stays inside the sequences, has the spans its kind
  requires, and an insert is followed by an equal opcode or by nothing.
\<close>

fun tiles :: "nat \<Rightarrow> nat \<Rightarrow> nat \<Rightarrow> nat \<Rightarrow> opcode list \<Rightarrow> bool" where
  "tiles la lb i j [] \<longleftrightarrow> i = la \<and> j = lb"
| "tiles la lb i j ((op, i1, i2, j1, j2) # rest) \<longleftrightarrow>
     i1 = i \<and> j1 = j \<and> i2 \<le> la \<and> j2 \<le> lb
     \<and> (case op of
           Equal \<Rightarrow> i1 < i2 \<and> j1 < j2 \<and> i2 - i1 = j2 - j1
         | Delete \<Rightarrow> i1 < i2 \<and> j1 = j2
         | Insert \<Rightarrow> i1 = i2 \<and> j1 < j2
         | Replace \<Rightarrow> i1 < i2 \<and> j1 < j2)
     \<and> (op = Insert \<longrightarrow> rest = [] \<or> fst (hd rest) = Equal)
     \<and> tiles la lb i2 j2 rest"

lemma get_opcodes_loop_acc:
  "get_opcodes_loop blocks i j answer = answer @ get_opcodes_loop blocks i j []"
proof (induction blocks arbitrary: i j answer)
  case Nil
  show ?case by simp
next
  case (Cons m blocks)
  obtain ai bj sz where m: "m = (ai, bj, sz)" by (cases m)
  show ?case
    unfolding m get_opcodes_loop.simps Let_def
    by (subst Cons.IH, subst (2) Cons.IH) (simp split: option.splits)
qed

lemma monotone_blocks_last:
  "monotone_blocks i j blocks \<Longrightarrow> blocks \<noteq> [] \<Longrightarrow> last blocks = (la, lb, 0)
     \<Longrightarrow> i \<le> la \<and> j \<le> lb"
proof (induction blocks arbitrary: i j)
  case Nil
  then show ?case by simp
next
  case (Cons m blocks)
  obtain ai bj sz where m: "m = (ai, bj, sz)" by (cases m)
  show ?case
  proof (cases "blocks = []")
    case True
    then show ?thesis using Cons.prems m by auto
  next
    case False
    then have "ai + sz \<le> la \<and> bj + sz \<le> lb"
      using Cons.IH [of "ai + sz" "bj + sz"] Cons.prems m by auto
    then show ?thesis using Cons.prems(1) m by auto
  qed
qed

lemma get_opcodes_loop_tiles:
  assumes "monotone_blocks i j blocks" "blocks \<noteq> []" "last blocks = (la, lb, 0)"
    and "\<forall>m \<in> set (butlast blocks). block_size m \<noteq> 0"
  shows "tiles la lb i j (get_opcodes_loop blocks i j [])"
  using assms
proof (induction blocks arbitrary: i j)
  case Nil
  then show ?case by simp
next
  case (Cons m blocks)
  obtain ai bj sz where m: "m = (ai, bj, sz)" by (cases m)
  have le: "i \<le> ai" "j \<le> bj" and mono: "monotone_blocks (ai + sz) (bj + sz) blocks"
    using Cons.prems(1) m by auto
  show ?case
  proof (cases "blocks = []")
    case True
    then have "ai = la" "bj = lb" "sz = 0" using Cons.prems(3) m by auto
    then show ?thesis using True le m by (auto simp: Let_def)
  next
    case False
    have sz: "sz \<noteq> 0" using Cons.prems(4) False m by auto
    have bnd: "ai + sz \<le> la \<and> bj + sz \<le> lb"
      using monotone_blocks_last [OF mono False] Cons.prems(3) False by simp
    have rest: "tiles la lb (ai + sz) (bj + sz) (get_opcodes_loop blocks (ai + sz) (bj + sz) [])"
      using Cons.IH [OF mono False] Cons.prems(3,4) False by simp
    define tg where "tg = (if i < ai \<and> j < bj then Some Replace
                else if i < ai then Some Delete
                else if j < bj then Some Insert
                else None)"
    have step: "get_opcodes_loop (m # blocks) i j [] =
        (case tg of None \<Rightarrow> [] | Some t \<Rightarrow> [(t, i, ai, j, bj)])
        @ (Equal, ai, ai + sz, bj, bj + sz) # get_opcodes_loop blocks (ai + sz) (bj + sz) []"
      unfolding m get_opcodes_loop.simps Let_def tg_def [symmetric]
      by (subst get_opcodes_loop_acc) (simp add: sz split: option.splits)
    have eq: "tiles la lb ai bj
        ((Equal, ai, ai + sz, bj, bj + sz) # get_opcodes_loop blocks (ai + sz) (bj + sz) [])"
      using sz bnd rest by simp
    show ?thesis
    proof (cases tg)
      case None
      then have ij: "i = ai" "j = bj" using le by (auto simp: tg_def split: if_splits)
      show ?thesis unfolding step None using eq ij by simp
    next
      case (Some t)
      then show ?thesis
        using eq le bnd unfolding step
        by (auto simp: tg_def split: if_splits)
    qed
  qed
qed

lemma get_opcodes_tiles: "tiles (length a) (length b) 0 0 (get_opcodes a b)"
proof -
  let ?bs = "collapse (sort (gmb_loop a b (chain_b b) {} [(0, length a, 0, length b)] []))
          (0, 0, 0) []"
  have gm: "get_matching_blocks a b = ?bs @ [(length a, length b, 0)]"
    by (simp add: get_matching_blocks_def Let_def)
  have nz: "\<forall>m \<in> set ?bs. block_size m \<noteq> 0"
    by (rule collapse_sizes) simp
  show ?thesis
    unfolding get_opcodes_def
    by (rule get_opcodes_loop_tiles)
      (use nz gm get_matching_blocks_monotone [of a b] in simp_all)
qed

end
